theory Spec2Isabelle
  imports
    Main
    "HOL-Library.Multiset"
    "HOL-Library.Sublist"
    "HOL-Library.Product_Lexorder"
    "HOL-Library.List_Lexorder"
begin

section \<open>Data model of \<^verbatim>\<open>pokergame.py\<close>\<close>

text \<open>
  A card is an object with two slots, \<^verbatim>\<open>rank\<close> (a Python integer, 2..14 in the decks the
  program builds) and \<^verbatim>\<open>suit\<close> (one of the four entries of \<^verbatim>\<open>SUITS\<close>).
\<close>

datatype suit = Spades | Hearts | Diamonds | Clubs

record Card =
  rank :: int
  suit :: suit

text \<open>
  The exceptions the evaluation code can raise: indexing past the end of a list,
  \<^verbatim>\<open>max\<close> of an empty sequence, and an ordering comparison between values of
  different types.
\<close>

datatype error = IndexError | ValueError | TypeError

definition bind :: "error + 'a \<Rightarrow> ('a \<Rightarrow> error + 'b) \<Rightarrow> error + 'b" where
  "bind m f = (case m of Inl e \<Rightarrow> Inl e | Inr v \<Rightarrow> f v)"

text \<open>
  The values that occur as elements of a score tuple: an integer, a list of integers, or
  \<^verbatim>\<open>None\<close> (the second component of \<^verbatim>\<open>is_straight\<close> when there is no straight).
  A score is a Python tuple of such values.
\<close>

datatype pyval = PNone | PInt int | PList "int list"

type_synonym score = "pyval list"

section \<open>Python primitives used by the evaluator\<close>

text \<open>\<^verbatim>\<open>xs[i]\<close> for a non-negative index: \<^verbatim>\<open>IndexError\<close> past the end.\<close>

definition index :: "'a list \<Rightarrow> nat \<Rightarrow> error + 'a" where
  "index xs i = (if i < length xs then Inr (xs ! i) else Inl IndexError)"

text \<open>
  \<^verbatim>\<open>sorted(xs, reverse=True)\<close>. Python's reverse sort keeps equal elements in their
  original order; every list sorted here holds integers or pairs of integers under their
  total order, where equal elements are identical, so reversing the ascending sort gives
  the same list.
\<close>

definition sorted_reverse :: "'a::linorder list \<Rightarrow> 'a list" where
  "sorted_reverse xs = rev (sort xs)"

text \<open>\<^verbatim>\<open>max(...)\<close> over integers: \<^verbatim>\<open>ValueError\<close> on an empty sequence.\<close>

fun py_max :: "int list \<Rightarrow> error + int" where
  "py_max [] = Inl ValueError"
| "py_max (x # xs) = Inr (foldl max x xs)"

text \<open>
  \<^verbatim>\<open>Counter(ranks)\<close>: a dictionary from each rank to its number of occurrences, whose
  items are kept in order of first insertion. It is an association list with one entry
  per key; \<^verbatim>\<open>counts[r]\<close> of a missing key is 0.
\<close>

fun counter_add :: "int \<Rightarrow> (int \<times> nat) list \<Rightarrow> (int \<times> nat) list" where
  "counter_add r [] = [(r, 1)]"
| "counter_add r ((k, c) # kvs) =
     (if k = r then (k, Suc c) # kvs else (k, c) # counter_add r kvs)"

definition Counter :: "int list \<Rightarrow> (int \<times> nat) list" where
  "Counter rs = foldl (\<lambda>m r. counter_add r m) [] rs"

definition counter_get :: "(int \<times> nat) list \<Rightarrow> int \<Rightarrow> nat" where
  "counter_get counts r = (case map_of counts r of None \<Rightarrow> 0 | Some f \<Rightarrow> f)"

text \<open>
  \<^verbatim>\<open>itertools.combinations(pool, k)\<close>: the \<open>k\<close>-element subsequences of the pool, in
  lexicographic order of their index tuples.
\<close>

fun combinations :: "'a list \<Rightarrow> nat \<Rightarrow> 'a list list" where
  "combinations xs 0 = [[]]"
| "combinations [] (Suc k) = []"
| "combinations (x # xs) (Suc k) =
     map ((#) x) (combinations xs k) @ combinations xs (Suc k)"

subsection \<open>Comparison of tuples and lists\<close>

text \<open>
  Python compares two sequences by looking for the first index at which the items are
  not equal; if there is none within the shorter one, the lengths are compared,
  otherwise the two items at that index are compared with the operator. Equality
  between an integer and a list is \<^verbatim>\<open>False\<close>; an ordering comparison between them,
  or with \<^verbatim>\<open>None\<close>, raises \<^verbatim>\<open>TypeError\<close>.
\<close>

datatype cmp_op = Gt | Ge

fun op_holds :: "cmp_op \<Rightarrow> 'a::linorder \<Rightarrow> 'a \<Rightarrow> bool" where
  "op_holds Gt a b = (a > b)"
| "op_holds Ge a b = (a \<ge> b)"

fun list_cmp :: "cmp_op \<Rightarrow> int list \<Rightarrow> int list \<Rightarrow> bool" where
  "list_cmp opr (x # xs) (y # ys) =
     (if x = y then list_cmp opr xs ys else op_holds opr x y)"
| "list_cmp opr xs ys = op_holds opr (length xs) (length ys)"

fun pyval_cmp :: "cmp_op \<Rightarrow> pyval \<Rightarrow> pyval \<Rightarrow> error + bool" where
  "pyval_cmp opr (PInt a) (PInt b) = Inr (op_holds opr a b)"
| "pyval_cmp opr (PList xs) (PList ys) = Inr (list_cmp opr xs ys)"
| "pyval_cmp opr _ _ = Inl TypeError"

fun tuple_cmp :: "cmp_op \<Rightarrow> score \<Rightarrow> score \<Rightarrow> error + bool" where
  "tuple_cmp opr (x # xs) (y # ys) =
     (if x = y then tuple_cmp opr xs ys else pyval_cmp opr x y)"
| "tuple_cmp opr xs ys = Inr (op_holds opr (length xs) (length ys))"

section \<open>Straight detection\<close>

text \<open>
  The loop \<^verbatim>\<open>for i in range(len(s) - 4)\<close> of \<^verbatim>\<open>is_straight\<close>: the window
  \<^verbatim>\<open>s[i:i + 5]\<close> always has five elements, and the first window spanning exactly four
  ends the loop.
\<close>

fun window_scan :: "int list \<Rightarrow> nat list \<Rightarrow> int option" where
  "window_scan s [] = None"
| "window_scan s (i # rest) =
     (let window = take 5 (drop i s)
      in if last window - hd window = 4 then Some (last window)
         else window_scan s rest)"

definition is_straight :: "int list \<Rightarrow> bool \<times> int option" where
  "is_straight ranks =
     (let s = sort (remdups ranks)
      in if length s < 5 then (False, None)
         else case window_scan s [0 ..< length s - 4] of
                Some t \<Rightarrow> (True, Some t)
              | None \<Rightarrow>
                  if set [14, 2, 3, 4, 5] \<subseteq> set s then (True, Some 5)
                  else (False, None))"

section \<open>Five-card evaluation\<close>

text \<open>
  \<^verbatim>\<open>evaluate_5\<close> follows the source's chain of tests in its order. \<^verbatim>\<open>freqs[0]\<close> is
  first read after the straight-flush test and can raise there; \<^verbatim>\<open>and\<close>
  short-circuits, so \<^verbatim>\<open>freqs[1]\<close> is read only when \<^verbatim>\<open>freqs[0]\<close> has the tested
  value. Every indexing and every \<^verbatim>\<open>max\<close> is a point where the call can raise.
  The source does not check the number of cards, and neither does the model.
\<close>

definition of_option :: "int option \<Rightarrow> pyval" where
  "of_option v = (case v of None \<Rightarrow> PNone | Some t \<Rightarrow> PInt t)"

definition evaluate_5 :: "Card list \<Rightarrow> error + score" where
  "evaluate_5 cards =
     (let ranks = map rank cards;
          suits = map suit cards;
          counts = Counter ranks;
          counts_by_freq = sorted_reverse (map (\<lambda>(r, f). (f, r)) counts);
          freqs = sorted_reverse (map snd counts);
          is_flush = (length (remdups suits) = 1);
          straight = fst (is_straight ranks);
          top_straight = snd (is_straight ranks)
      in
      if is_flush \<and> straight then Inr [PInt 9, of_option top_straight]
      else
      bind (index freqs 0) (\<lambda>f0.
      if f0 = 4 then
        bind (index counts_by_freq 0) (\<lambda>e.
        let four_rank = snd e in
        bind (py_max [r \<leftarrow> ranks. r \<noteq> four_rank]) (\<lambda>kicker.
        Inr [PInt 8, PInt four_rank, PInt kicker]))
      else
      bind (if f0 = 3 then bind (index freqs 1) (\<lambda>f1. Inr (f1 = 2)) else Inr False)
        (\<lambda>full_house.
      if full_house then
        bind (index counts_by_freq 0) (\<lambda>e0.
        bind (index counts_by_freq 1) (\<lambda>e1.
        Inr [PInt 7, PInt (snd e0), PInt (snd e1)]))
      else if is_flush then Inr [PInt 6, PList (sorted_reverse ranks)]
      else if straight then Inr [PInt 5, of_option top_straight]
      else if f0 = 3 then
        bind (index counts_by_freq 0) (\<lambda>e.
        let three_rank = snd e;
            kickers = sorted_reverse [r \<leftarrow> ranks. r \<noteq> three_rank]
        in Inr [PInt 4, PInt three_rank, PList kickers])
      else
      bind (if f0 = 2 then bind (index freqs 1) (\<lambda>f1. Inr (f1 = 2)) else Inr False)
        (\<lambda>two_pair.
      if two_pair then
        let pair_ranks = sorted_reverse (map fst [e \<leftarrow> counts. snd e = 2]) in
        bind (py_max [r \<leftarrow> ranks. counter_get counts r = 1]) (\<lambda>kicker.
        bind (index pair_ranks 0) (\<lambda>p0.
        bind (index pair_ranks 1) (\<lambda>p1.
        Inr [PInt 3, PInt p0, PInt p1, PInt kicker])))
      else if f0 = 2 then
        bind (index counts_by_freq 0) (\<lambda>e.
        let pair_rank = snd e;
            kickers = sorted_reverse [r \<leftarrow> ranks. r \<noteq> pair_rank]
        in Inr [PInt 2, PInt pair_rank, PList kickers])
      else Inr [PInt 1, PList (sorted_reverse ranks)]))))"

section \<open>Best hand of a pool\<close>

text \<open>
  The loop of \<^verbatim>\<open>best_hand\<close> over the combinations, with the pair
  \<^verbatim>\<open>(best, best_combo)\<close> as its state; both start as \<^verbatim>\<open>None\<close>.
\<close>

fun best_hand_loop ::
  "score option \<times> Card list option \<Rightarrow> Card list list \<Rightarrow>
   error + (score option \<times> Card list option)" where
  "best_hand_loop st [] = Inr st"
| "best_hand_loop st (combo # rest) =
     bind (evaluate_5 combo) (\<lambda>val.
     bind (case fst st of None \<Rightarrow> Inr True | Some best \<Rightarrow> tuple_cmp Gt val best)
       (\<lambda>better.
     best_hand_loop (if better then (Some val, Some combo) else st) rest))"

definition best_hand :: "Card list \<Rightarrow> error + (score option \<times> Card list option)" where
  "best_hand seven_cards = best_hand_loop (None, None) (combinations seven_cards 5)"

section \<open>Showdown\<close>

text \<open>
  The two lines of \<^verbatim>\<open>main\<close> that find the winners. \<^verbatim>\<open>results\<close> is a dictionary
  from player name to the pair returned by \<^verbatim>\<open>best_hand\<close>, iterated in insertion
  order: an association list. \<^verbatim>\<open>max\<close> keeps the first item and replaces it by each
  later item that compares greater; a comparison with \<^verbatim>\<open>None\<close> raises
  \<^verbatim>\<open>TypeError\<close>, and \<^verbatim>\<open>max\<close> of no items raises \<^verbatim>\<open>ValueError\<close>.
\<close>

fun opt_score_gt :: "score option \<Rightarrow> score option \<Rightarrow> error + bool" where
  "opt_score_gt (Some a) (Some b) = tuple_cmp Gt a b"
| "opt_score_gt _ _ = Inl TypeError"

fun max_loop :: "score option \<Rightarrow> score option list \<Rightarrow> error + score option" where
  "max_loop m [] = Inr m"
| "max_loop m (x # xs) =
     bind (opt_score_gt x m) (\<lambda>greater. max_loop (if greater then x else m) xs)"

fun max_score :: "score option list \<Rightarrow> error + score option" where
  "max_score [] = Inl ValueError"
| "max_score (x # xs) = max_loop x xs"

definition winners ::
  "(string \<times> score option \<times> Card list option) list \<Rightarrow> error + string list" where
  "winners results =
     bind (max_score (map (\<lambda>(p, score, combo). score) results)) (\<lambda>best_score.
     Inr (map fst [e \<leftarrow> results. fst (snd e) = best_score]))"

section \<open>Properties stated by the specification\<close>

text \<open>
  The shape of a score, per category: which elements after the category are integers and
  which are rank lists of which length.
\<close>

datatype shape = SInt | SList nat

fun has_shape :: "pyval \<Rightarrow> shape \<Rightarrow> bool" where
  "has_shape (PInt a) SInt = True"
| "has_shape (PList xs) (SList n) = (length xs = n)"
| "has_shape v sh = False"

definition category_shape :: "int \<Rightarrow> shape list" where
  "category_shape c =
     (if c = 9 \<or> c = 5 then [SInt]
      else if c = 8 \<or> c = 7 then [SInt, SInt]
      else if c = 6 \<or> c = 1 then [SList 5]
      else if c = 4 then [SInt, SList 2]
      else if c = 3 then [SInt, SInt, SInt]
      else if c = 2 then [SInt, SList 3]
      else [])"

definition hand_score :: "score \<Rightarrow> bool" where
  "hand_score s =
     (case s of
        PInt c # rest \<Rightarrow> 1 \<le> c \<and> c \<le> 9 \<and> list_all2 has_shape rest (category_shape c)
      | _ \<Rightarrow> False)"

definition category :: "score \<Rightarrow> int" where
  "category s = (case s of PInt c # rest \<Rightarrow> c | _ \<Rightarrow> 0)"

text \<open>
  The ranks of a score read left to right, as one list: on scores of the shapes above,
  Python's comparison is the lexicographic order of these lists.
\<close>

fun flat :: "pyval \<Rightarrow> int list" where
  "flat (PInt a) = [a]"
| "flat (PList xs) = xs"
| "flat PNone = []"

definition score_key :: "score \<Rightarrow> int list" where
  "score_key s = concat (map flat s)"

text \<open>
  The specification's own reading of straight detection on more than five distinct
  ranks: the tops of all windows of five consecutive sorted distinct ranks.
\<close>

definition spec_window_tops :: "int list \<Rightarrow> int list" where
  "spec_window_tops ranks =
     (let s = sort (remdups ranks)
      in [last w. w \<leftarrow> map (\<lambda>i. take 5 (drop i s)) [0 ..< length s - 4],
                  last w - hd w = 4])"

text \<open>Two score elements of the same type: both integers, or both lists of one length.\<close>

fun same_type :: "pyval \<Rightarrow> pyval \<Rightarrow> bool" where
  "same_type (PInt a) (PInt b) = True"
| "same_type (PList xs) (PList ys) = (length xs = length ys)"
| "same_type PNone PNone = True"
| "same_type x y = False"

section \<open>Example hands\<close>

text \<open>\<^verbatim>\<open>Card(rank, suit)\<close>, the constructor.\<close>

definition new_Card :: "int \<Rightarrow> suit \<Rightarrow> Card" where
  "new_Card r s = \<lparr>rank = r, suit = s\<rparr>"

text \<open>
  The specification's scenario: hole cards ace of spades and ace of hearts, community
  cards ace of diamonds, king of clubs, king of hearts, two of spades, three of diamonds.
\<close>

definition scenario_pool :: "Card list" where
  "scenario_pool =
     [new_Card 14 Spades, new_Card 14 Hearts,
      new_Card 14 Diamonds, new_Card 13 Clubs, new_Card 13 Hearts,
      new_Card 2 Spades, new_Card 3 Diamonds]"

section \<open>Helper lemmas\<close>

lemma combinations_short: "length xs < k \<Longrightarrow> combinations xs k = []"
  by (induction xs k rule: combinations.induct) auto

subsection \<open>The counter\<close>

lemma counter_get_add:
  "counter_get (counter_add r m) k = (if k = r then Suc (counter_get m r) else counter_get m k)"
  by (induction r m rule: counter_add.induct) (auto simp: counter_get_def)

lemma keys_counter_add: "fst ` set (counter_add r m) = insert r (fst ` set m)"
  by (induction r m rule: counter_add.induct) auto

lemma distinct_counter_add:
  "distinct (map fst m) \<Longrightarrow> distinct (map fst (counter_add r m))"
proof (induction r m rule: counter_add.induct)
  case (1 r)
  then show ?case by simp
next
  case (2 r k c kvs)
  then show ?case using keys_counter_add[of r kvs] by (auto simp: image_iff)
qed

lemma sum_counter_add: "sum_list (map snd (counter_add r m)) = Suc (sum_list (map snd m))"
  by (induction r m rule: counter_add.induct) auto

lemma foldl_counter_get:
  "counter_get (foldl (\<lambda>m r. counter_add r m) m rs) k = counter_get m k + count_list rs k"
  by (induction rs arbitrary: m) (auto simp: counter_get_add)

lemma foldl_counter_keys:
  "fst ` set (foldl (\<lambda>m r. counter_add r m) m rs) = fst ` set m \<union> set rs"
  by (induction rs arbitrary: m) (auto simp: keys_counter_add)

lemma foldl_counter_distinct:
  "distinct (map fst m) \<Longrightarrow> distinct (map fst (foldl (\<lambda>m r. counter_add r m) m rs))"
  by (induction rs arbitrary: m) (auto simp: distinct_counter_add)

lemma foldl_counter_sum:
  "sum_list (map snd (foldl (\<lambda>m r. counter_add r m) m rs)) = sum_list (map snd m) + length rs"
  by (induction rs arbitrary: m) (auto simp: sum_counter_add)

lemma Counter_get: "counter_get (Counter rs) k = count_list rs k"
  using foldl_counter_get[of "[]" rs k] by (simp add: Counter_def counter_get_def)

lemma Counter_keys: "fst ` set (Counter rs) = set rs"
  by (simp add: Counter_def foldl_counter_keys)

lemma Counter_distinct: "distinct (map fst (Counter rs))"
  by (simp add: Counter_def foldl_counter_distinct)

lemma Counter_sum: "sum_list (map snd (Counter rs)) = length rs"
  by (simp add: Counter_def foldl_counter_sum)

lemma Counter_entry:
  "(k, c) \<in> set (Counter rs) \<longleftrightarrow> k \<in> set rs \<and> c = count_list rs k"
proof
  assume h: "(k, c) \<in> set (Counter rs)"
  then have "map_of (Counter rs) k = Some c"
    using Counter_distinct by simp
  then have "counter_get (Counter rs) k = c" by (simp add: counter_get_def)
  moreover have "k \<in> set rs" using h Counter_keys[of rs] by force
  ultimately show "k \<in> set rs \<and> c = count_list rs k" by (simp add: Counter_get)
next
  assume h: "k \<in> set rs \<and> c = count_list rs k"
  then have "k \<in> fst ` set (Counter rs)" by (simp add: Counter_keys)
  then obtain c' where c': "(k, c') \<in> set (Counter rs)" by force
  then have "map_of (Counter rs) k = Some c'" using Counter_distinct by simp
  then have "counter_get (Counter rs) k = c'" by (simp add: counter_get_def)
  then show "(k, c) \<in> set (Counter rs)" using c' h by (simp add: Counter_get)
qed

lemma Counter_set: "set (Counter rs) = (\<lambda>k. (k, count_list rs k)) ` set rs"
  using Counter_entry by auto

lemma Counter_mset_cong:
  assumes "mset rs = mset rs'"
  shows "mset (Counter rs) = mset (Counter rs')"
proof -
  have s: "set rs = set rs'" using assms by (rule mset_eq_setD)
  have c: "count_list rs = count_list rs'"
  proof (rule ext)
    fix k
    show "count_list rs k = count_list rs' k"
      using arg_cong[OF assms, of "\<lambda>m. count m k"] by (simp only: count_mset)
  qed
  have "set (Counter rs) = set (Counter rs')" by (simp add: Counter_set s c)
  moreover have "distinct (Counter rs)"
    using Counter_distinct[of rs] by (simp add: distinct_map)
  moreover have "distinct (Counter rs')"
    using Counter_distinct[of rs'] by (simp add: distinct_map)
  ultimately show ?thesis by (simp add: set_eq_iff_mset_eq_distinct)
qed

lemma Counter_positive: "f \<in> set (map snd (Counter rs)) \<Longrightarrow> 0 < f"
proof -
  assume "f \<in> set (map snd (Counter rs))"
  then obtain k where "(k, f) \<in> set (Counter rs)" by auto
  then have "k \<in> set rs" "f = count_list rs k" by (simp_all add: Counter_entry)
  then show "0 < f" using count_list_0_iff[of rs k] by simp
qed

lemma sort_cong: "mset xs = mset ys \<Longrightarrow> sort xs = sort ys"
  by (rule properties_for_sort) simp_all

lemma sorted_reverse_cong: "mset xs = mset ys \<Longrightarrow> sorted_reverse xs = sorted_reverse ys"
  using sort_cong[of xs ys] by (simp add: sorted_reverse_def)

lemma map_fst_sort: "map fst (sort ps) = sort (map fst ps)"
proof -
  have "sorted_wrt (\<lambda>x y. fst x \<le> fst y) (sort ps)"
    by (rule sorted_wrt_mono_rel[where P = "(\<le>)"]) (auto simp: less_eq_prod_def)
  then have "sorted (map fst (sort ps))" by (simp add: sorted_map)
  moreover have "mset (map fst (sort ps)) = mset (map fst ps)" by simp
  ultimately show ?thesis using properties_for_sort[of "map fst (sort ps)" "map fst ps"] by simp
qed

lemma py_max_eq: "py_max xs = (if xs = [] then Inl ValueError else Inr (Max (set xs)))"
proof (cases xs)
  case Nil then show ?thesis by simp
next
  case (Cons x ys)
  have sw: "(\<lambda>(a::int) b. max b a) = max" by (intro ext) (simp add: max.commute)
  have "foldl max x ys = fold max ys x" by (simp add: foldl_conv_fold sw)
  also have "\<dots> = Max (set (x # ys))" by (rule Max.set_eq_fold[symmetric])
  finally show ?thesis using Cons by simp
qed

lemma filter_neq_length: "length [r \<leftarrow> xs. r \<noteq> x] + count_list xs x = length xs"
  by (induction xs) auto

subsection \<open>Comparison of hand scores\<close>

lemma list_cmp_lex: "list_cmp opr xs ys = op_holds opr xs ys"
proof (induction xs arbitrary: ys)
  case Nil
  then show ?case by (cases opr; cases ys) auto
next
  case (Cons x xs)
  then show ?case by (cases opr; cases ys) auto
qed

lemma append_same_less: "(xs @ a < xs @ b) = (a < (b :: int list))"
  by (induction xs) auto

lemma append_diff_less:
  "length xs = length ys \<Longrightarrow> xs \<noteq> ys \<Longrightarrow> (xs @ a < ys @ b) = (xs < (ys :: int list))"
  by (induction xs ys rule: list_induct2) auto

lemma op_holds_append_same:
  "op_holds opr (xs @ a) (xs @ b) = op_holds opr a (b :: int list)"
  by (cases opr) (auto simp: append_same_less le_less)

lemma op_holds_append_diff:
  "length xs = length ys \<Longrightarrow> xs \<noteq> ys \<Longrightarrow>
   op_holds opr (xs @ a) (ys @ b) = op_holds opr xs (ys :: int list)"
  using append_diff_less[of ys xs b a] 
  by (cases opr) (auto simp: le_less)

lemma tuple_cmp_shape:
  "list_all2 has_shape a sh \<Longrightarrow> list_all2 has_shape b sh \<Longrightarrow>
   tuple_cmp opr a b = Inr (op_holds opr (score_key a) (score_key b))"
proof (induction sh arbitrary: a b)
  case Nil
  then show ?case by (cases opr) (simp_all add: score_key_def)
next
  case (Cons s sh)
  from Cons.prems obtain x a' y b' where
    a: "a = x # a'" and b: "b = y # b'" and
    x: "has_shape x s" and y: "has_shape y s" and
    a': "list_all2 has_shape a' sh" and b': "list_all2 has_shape b' sh"
    by (auto simp: list_all2_Cons2)
  have ih: "tuple_cmp opr a' b' = Inr (op_holds opr (score_key a') (score_key b'))"
    using Cons.IH[OF a' b'] .
  show ?case
  proof (cases s)
    case SInt
    then obtain u v where xy: "x = PInt u" "y = PInt v"
      using x y by (cases x; cases y) auto
    show ?thesis
      using ih by (cases opr) (auto simp: a b xy score_key_def)
  next
    case (SList n)
    then obtain us vs where xy: "x = PList us" "y = PList vs" and
      len: "length us = length vs"
      using x y by (cases x; cases y) auto
    show ?thesis
    proof (cases "us = vs")
      case True
      then show ?thesis
        using ih by (simp add: a b xy score_key_def op_holds_append_same)
    next
      case False
      then show ?thesis
        using op_holds_append_diff[OF len False, of opr "concat (map flat a')" "concat (map flat b')"]
        by (simp add: a b xy score_key_def list_cmp_lex)
    qed
  qed
qed

lemma hand_scoreE:
  assumes "hand_score s"
  obtains c rest where "s = PInt c # rest" "1 \<le> c" "c \<le> 9"
    "list_all2 has_shape rest (category_shape c)"
  using assms by (auto simp: hand_score_def split: list.splits pyval.splits)

lemma tuple_cmp_hand_score:
  assumes "hand_score a" "hand_score b"
  shows "tuple_cmp opr a b = Inr (op_holds opr (score_key a) (score_key b))"
proof -
  from assms(1) obtain c ra where a: "a = PInt c # ra"
    and sa: "list_all2 has_shape ra (category_shape c)" by (rule hand_scoreE)
  from assms(2) obtain d rb where b: "b = PInt d # rb"
    and sb: "list_all2 has_shape rb (category_shape d)" by (rule hand_scoreE)
  show ?thesis
  proof (cases "c = d")
    case True
    then show ?thesis
      using tuple_cmp_shape[OF sa, of rb opr] sb
      by (cases opr) (auto simp: a b score_key_def)
  next
    case False
    then show ?thesis by (cases opr) (auto simp: a b score_key_def)
  qed
qed

lemma score_key_shape_inj:
  "list_all2 has_shape a sh \<Longrightarrow> list_all2 has_shape b sh \<Longrightarrow>
   score_key a = score_key b \<Longrightarrow> a = b"
proof (induction sh arbitrary: a b)
  case Nil
  then show ?case by simp
next
  case (Cons s sh)
  from Cons.prems obtain x a' y b' where
    a: "a = x # a'" and b: "b = y # b'" and
    x: "has_shape x s" and y: "has_shape y s" and
    a': "list_all2 has_shape a' sh" and b': "list_all2 has_shape b' sh"
    by (auto simp: list_all2_Cons2)
  show ?case
  proof (cases s)
    case SInt
    then obtain u v where xy: "x = PInt u" "y = PInt v"
      using x y by (cases x; cases y) auto
    then show ?thesis
      using Cons.IH[OF a' b'] Cons.prems(3) by (simp add: a b score_key_def)
  next
    case (SList n)
    then obtain us vs where xy: "x = PList us" "y = PList vs" and
      len: "length us = length vs"
      using x y by (cases x; cases y) auto
    then show ?thesis
      using Cons.IH[OF a' b'] Cons.prems(3) by (simp add: a b score_key_def)
  qed
qed

lemma score_key_inj:
  assumes "hand_score a" "hand_score b" "score_key a = score_key b"
  shows "a = b"
proof -
  from assms(1) obtain c ra where a: "a = PInt c # ra"
    and sa: "list_all2 has_shape ra (category_shape c)" by (rule hand_scoreE)
  from assms(2) obtain d rb where b: "b = PInt d # rb"
    and sb: "list_all2 has_shape rb (category_shape d)" by (rule hand_scoreE)
  have cd: "c = d" using assms(3) by (simp add: a b score_key_def)
  have "score_key ra = score_key rb" using assms(3) by (simp add: a b score_key_def)
  then have "ra = rb" using score_key_shape_inj[OF sa, of rb] sb cd by simp
  then show ?thesis by (simp add: a b cd)
qed

subsection \<open>Facts about the intermediate values of the evaluator\<close>

lemma is_straight_top: "fst (is_straight ranks) \<Longrightarrow> \<exists>t. snd (is_straight ranks) = Some t"
  by (auto simp: is_straight_def Let_def split: option.splits if_splits)

lemma sum_list_sorted_reverse: "sum_list (sorted_reverse (xs :: nat list)) = sum_list xs"
proof -
  have "sum_mset (mset (sorted_reverse xs)) = sum_mset (mset xs)"
    by (simp add: sorted_reverse_def)
  then show ?thesis by (simp only: sum_mset_sum_list)
qed

lemma set_sorted_reverse: "set (sorted_reverse xs) = set xs"
  by (simp add: sorted_reverse_def)

lemma length_sorted_reverse: "length (sorted_reverse xs) = length xs"
  by (simp add: sorted_reverse_def)

lemma mset_sorted_reverse: "mset (sorted_reverse xs) = mset xs"
  by (simp add: sorted_reverse_def)

lemma fst_counts_by_freq:
  "map fst (sorted_reverse (map (\<lambda>(r, f). (f, r)) counts)) = sorted_reverse (map snd counts)"
proof -
  have "map fst (map (\<lambda>(r, f). (f, r)) counts) = map snd counts"
    by (induction counts) auto
  then show ?thesis
    by (simp add: sorted_reverse_def rev_map[symmetric] map_fst_sort del: map_map)
qed

lemma counts_by_freq_entry:
  "(f, r) \<in> set (sorted_reverse (map (\<lambda>(r, f). (f, r)) (Counter ranks))) \<longleftrightarrow>
   r \<in> set ranks \<and> f = count_list ranks r"
  using Counter_entry[of r f ranks] by (auto simp: set_sorted_reverse)

subsection \<open>The score of five cards has the shape of its category\<close>

lemma index_Cons0: "index (x # xs) 0 = Inr x"
  by (simp add: index_def)

lemma index_Cons1: "index (x # y # xs) (Suc 0) = Inr y"
  by (simp add: index_def)

lemma bind_Inr: "bind (Inr v) f = f v"
  by (simp add: bind_def)

lemma hand_score_simps:
  "hand_score [PInt 9, PInt t]"
  "hand_score [PInt 8, PInt q, PInt k]"
  "hand_score [PInt 7, PInt q, PInt k]"
  "length rs = 5 \<Longrightarrow> hand_score [PInt 6, PList rs]"
  "hand_score [PInt 5, PInt t]"
  "length ks = 2 \<Longrightarrow> hand_score [PInt 4, PInt q, PList ks]"
  "hand_score [PInt 3, PInt p, PInt q, PInt k]"
  "length ks = 3 \<Longrightarrow> hand_score [PInt 2, PInt q, PList ks]"
  "length rs = 5 \<Longrightarrow> hand_score [PInt 1, PList rs]"
  by (simp_all add: hand_score_def category_shape_def)

lemma length_filter_mset_cong:
  "mset xs = mset ys \<Longrightarrow> length (filter P xs) = length (filter P ys)"
  by (metis mset_filter size_mset)

lemma evaluate_5_hand_score:
  assumes len: "length cards = 5"
  shows "\<exists>s. evaluate_5 cards = Inr s \<and> hand_score s"
proof -
  define ranks where "ranks = map rank cards"
  define counts where "counts = Counter ranks"
  define cbf where "cbf = sorted_reverse (map (\<lambda>(r, f). (f, r)) counts)"
  define freqs where "freqs = sorted_reverse (map snd counts)"
  define flush where "flush = (length (remdups (map suit cards)) = 1)"
  define straight where "straight = fst (is_straight ranks)"
  define top where "top = of_option (snd (is_straight ranks))"
  note defs = ranks_def counts_def cbf_def freqs_def flush_def straight_def top_def
  have lr: "length ranks = 5" using len by (simp add: ranks_def)
  have sumf: "sum_list freqs = 5"
    by (simp add: freqs_def sum_list_sorted_reverse counts_def Counter_sum lr)
  have posf: "0 < f" if "f \<in> set freqs" for f
    using that Counter_positive[of f ranks] by (simp add: freqs_def set_sorted_reverse counts_def)
  have fc: "map fst cbf = freqs"
    by (simp add: cbf_def freqs_def fst_counts_by_freq)
  have ent: "r \<in> set ranks \<and> count_list ranks r = f" if "(f, r) \<in> set cbf" for f r
    using that counts_by_freq_entry[of f r ranks] by (simp add: cbf_def counts_def)
  have top_int: "\<exists>t. top = PInt t" if straight
    using is_straight_top[of ranks] that by (auto simp: straight_def top_def of_option_def)
  obtain f0 rest where fr: "freqs = f0 # rest"
    using sumf by (cases freqs) auto
  obtain r0 crest where cb: "cbf = (f0, r0) # crest" and cr: "map fst crest = rest"
    using fc fr by (cases cbf) auto
  have c0: "count_list ranks r0 = f0" using ent[of f0 r0] cb by simp
  have k0: "length [r \<leftarrow> ranks. r \<noteq> r0] + f0 = 5"
    using filter_neq_length[of r0 ranks] c0 lr by simp
  have srest: "f0 + sum_list rest = 5" using sumf fr by simp
  have ev: "evaluate_5 cards =
      (if flush \<and> straight then Inr [PInt 9, top]
      else
      bind (index freqs 0) (\<lambda>f0.
      if f0 = 4 then
        bind (index cbf 0) (\<lambda>e.
        bind (py_max [r \<leftarrow> ranks. r \<noteq> snd e]) (\<lambda>kicker.
        Inr [PInt 8, PInt (snd e), PInt kicker]))
      else
      bind (if f0 = 3 then bind (index freqs 1) (\<lambda>f1. Inr (f1 = 2)) else Inr False)
        (\<lambda>full_house.
      if full_house then
        bind (index cbf 0) (\<lambda>e0.
        bind (index cbf 1) (\<lambda>e1.
        Inr [PInt 7, PInt (snd e0), PInt (snd e1)]))
      else if flush then Inr [PInt 6, PList (sorted_reverse ranks)]
      else if straight then Inr [PInt 5, top]
      else if f0 = 3 then
        bind (index cbf 0) (\<lambda>e.
        Inr [PInt 4, PInt (snd e), PList (sorted_reverse [r \<leftarrow> ranks. r \<noteq> snd e])])
      else
      bind (if f0 = 2 then bind (index freqs 1) (\<lambda>f1. Inr (f1 = 2)) else Inr False)
        (\<lambda>two_pair.
      if two_pair then
        bind (py_max [r \<leftarrow> ranks. counter_get counts r = 1]) (\<lambda>kicker.
        bind (index (sorted_reverse (map fst [e \<leftarrow> counts. snd e = 2])) 0) (\<lambda>p0.
        bind (index (sorted_reverse (map fst [e \<leftarrow> counts. snd e = 2])) 1) (\<lambda>p1.
        Inr [PInt 3, PInt p0, PInt p1, PInt kicker])))
      else if f0 = 2 then
        bind (index cbf 0) (\<lambda>e.
        Inr [PInt 2, PInt (snd e), PList (sorted_reverse [r \<leftarrow> ranks. r \<noteq> snd e])])
      else Inr [PInt 1, PList (sorted_reverse ranks)]))))"
    unfolding evaluate_5_def Let_def defs ..
  have i0: "index freqs 0 = Inr f0" "index cbf 0 = Inr (f0, r0)"
    by (simp_all add: fr cb index_Cons0)
  have l5: "length (sorted_reverse ranks) = 5" by (simp add: length_sorted_reverse lr)
  show ?thesis
  proof (cases "flush \<and> straight")
    case True
    then show ?thesis using top_int by (auto simp: ev hand_score_simps)
  next
    case nsf: False
    consider (four) "f0 = 4" | (three) "f0 = 3" | (two) "f0 = 2"
      | (other) "f0 \<noteq> 4" "f0 \<noteq> 3" "f0 \<noteq> 2" by blast
    then show ?thesis
    proof cases
      case four
      then have "[r \<leftarrow> ranks. r \<noteq> r0] \<noteq> []" using k0 by auto
      then show ?thesis
        using nsf four by (auto simp: ev i0 bind_Inr py_max_eq hand_score_simps)
    next
      case three
      then have "rest \<noteq> []" using srest by auto
      then obtain f1 rest2 where r1: "rest = f1 # rest2" by (cases rest) auto
      then obtain r1 crest2 where c1: "crest = (f1, r1) # crest2"
        using cr by (cases crest) auto
      have i1: "index freqs (Suc 0) = Inr f1" "index cbf (Suc 0) = Inr (f1, r1)"
        by (simp_all add: fr cb r1 c1 index_Cons1)
      have lk: "length (sorted_reverse [r \<leftarrow> ranks. r \<noteq> r0]) = 2"
        using k0 three by (simp add: length_sorted_reverse)
      show ?thesis
        using nsf three top_int
        by (auto simp: ev i0 i1 bind_Inr hand_score_simps l5 lk)
    next
      case two
      then have "rest \<noteq> []" using srest by auto
      then obtain f1 rest2 where r1: "rest = f1 # rest2" by (cases rest) auto
      have i1: "index freqs (Suc 0) = Inr f1"
        by (simp add: fr r1 index_Cons1)
      have lk: "length (sorted_reverse [r \<leftarrow> ranks. r \<noteq> r0]) = 3"
        using k0 two by (simp add: length_sorted_reverse)
      show ?thesis
      proof (cases "f1 = 2 \<and> \<not> flush \<and> \<not> straight")
        case False
        then show ?thesis
          using nsf two top_int
          by (auto simp: ev i0 i1 bind_Inr hand_score_simps l5 lk)
      next
        case True
        define pair_ranks where "pair_ranks = sorted_reverse (map fst [e \<leftarrow> counts. snd e = 2])"
        have "mset (map snd counts) = mset freqs"
          by (simp add: freqs_def mset_sorted_reverse)
        then have "length [f \<leftarrow> map snd counts. f = 2] = length [f \<leftarrow> freqs. f = 2]"
          by (rule length_filter_mset_cong)
        then have "length [e \<leftarrow> counts. snd e = 2] = length [f \<leftarrow> freqs. f = 2]"
          by (simp add: filter_map comp_def)
        then have lp: "2 \<le> length pair_ranks"
          using True two by (simp add: pair_ranks_def length_sorted_reverse fr r1)
        then obtain p0 p1 ps where pp: "pair_ranks = p0 # p1 # ps"
          by (cases pair_ranks; cases "tl pair_ranks") auto
        have "sum_list rest2 = 1" using srest r1 two True by simp
        then obtain f2 rest3 where "rest2 = f2 # rest3" "f2 \<le> 1"
          by (cases rest2) auto
        then have "f2 \<in> set rest2" "f2 \<le> 1" by simp_all
        moreover have "0 < f2" using posf[of f2] \<open>f2 \<in> set rest2\<close> by (simp add: fr r1)
        ultimately have "f2 = 1" by simp
        then have "1 \<in> set freqs" using \<open>f2 \<in> set rest2\<close> by (simp add: fr r1)
        then have "1 \<in> snd ` set counts" by (simp add: freqs_def set_sorted_reverse)
        then obtain k where "(k, 1) \<in> set counts" by force
        then have "k \<in> set ranks" "counter_get counts k = 1"
          by (simp_all add: counts_def Counter_entry Counter_get)
        then have "[r \<leftarrow> ranks. counter_get counts r = 1] \<noteq> []"
          by (auto simp: filter_empty_conv)
        then show ?thesis
          using nsf two True pp
          by (simp add: ev i0 i1 bind_Inr py_max_eq hand_score_simps index_Cons0 index_Cons1
              flip: pair_ranks_def)
      qed
    next
      case other
      then show ?thesis
        using nsf top_int by (auto simp: ev i0 bind_Inr hand_score_simps l5)
    qed
  qed
qed

subsection \<open>Order independence\<close>

lemma is_straight_cong:
  assumes "set rs = set rs'"
  shows "is_straight rs = is_straight rs'"
proof -
  have "sort (remdups rs) = sorted_list_of_set (set rs)"
    by (simp add: sorted_list_of_set_sort_remdups)
  moreover have "sort (remdups rs') = sorted_list_of_set (set rs')"
    by (simp add: sorted_list_of_set_sort_remdups)
  ultimately have "sort (remdups rs) = sort (remdups rs')" using assms by simp
  then show ?thesis by (simp add: is_straight_def)
qed

lemma py_max_cong: "set xs = set ys \<Longrightarrow> py_max xs = py_max ys"
  by (auto simp: py_max_eq)

lemma evaluate_5_perm:
  assumes "mset cards' = mset cards"
  shows "evaluate_5 cards' = evaluate_5 cards"
proof -
  have mr: "mset (map rank cards') = mset (map rank cards)"
    using arg_cong[OF assms, of "image_mset rank"] by simp
  have sr: "set (map rank cards') = set (map rank cards)"
    using mr by (rule mset_eq_setD)
  have mc: "mset (Counter (map rank cards')) = mset (Counter (map rank cards))"
    using mr by (rule Counter_mset_cong)
  have t1: "length (remdups (map suit cards')) = length (remdups (map suit cards))"
  proof -
    have "set cards' = set cards" using assms by (rule mset_eq_setD)
    then have "set (map suit cards') = set (map suit cards)" by simp
    then show ?thesis by (simp only: length_remdups_card_conv)
  qed
  have t2: "is_straight (map rank cards') = is_straight (map rank cards)"
    using sr by (rule is_straight_cong)
  have t3: "sorted_reverse (map snd (Counter (map rank cards'))) =
            sorted_reverse (map snd (Counter (map rank cards)))"
    using arg_cong[OF mc, of "image_mset snd"] by (intro sorted_reverse_cong) simp
  have t4: "sorted_reverse (map (\<lambda>(r, f). (f, r)) (Counter (map rank cards'))) =
            sorted_reverse (map (\<lambda>(r, f). (f, r)) (Counter (map rank cards)))"
    using arg_cong[OF mc, of "image_mset (\<lambda>(r, f). (f, r))"]
    by (intro sorted_reverse_cong) simp
  have t5: "py_max [r \<leftarrow> map rank cards'. r \<noteq> x] = py_max [r \<leftarrow> map rank cards. r \<noteq> x]" for x
    by (rule py_max_cong) (simp only: set_filter sr)
  have t6: "sorted_reverse (map rank cards') = sorted_reverse (map rank cards)"
    using mr by (rule sorted_reverse_cong)
  have t7: "sorted_reverse [r \<leftarrow> map rank cards'. r \<noteq> x] =
            sorted_reverse [r \<leftarrow> map rank cards. r \<noteq> x]" for x
    by (rule sorted_reverse_cong) (simp only: mset_filter mr)
  have cg: "counter_get (Counter (map rank cards')) = counter_get (Counter (map rank cards))"
  proof (rule ext)
    fix k
    show "counter_get (Counter (map rank cards')) k = counter_get (Counter (map rank cards)) k"
      using arg_cong[OF mr, of "\<lambda>m. count m k"] by (simp only: Counter_get count_mset)
  qed
  have t8: "py_max [r \<leftarrow> map rank cards'. counter_get (Counter (map rank cards')) r = 1] =
            py_max [r \<leftarrow> map rank cards. counter_get (Counter (map rank cards)) r = 1]"
    by (rule py_max_cong) (simp only: set_filter sr cg)
  have t9: "sorted_reverse (map fst [e \<leftarrow> Counter (map rank cards'). snd e = 2]) =
            sorted_reverse (map fst [e \<leftarrow> Counter (map rank cards). snd e = 2])"
  proof (rule sorted_reverse_cong)
    have "mset [e \<leftarrow> Counter (map rank cards'). snd e = 2] =
          mset [e \<leftarrow> Counter (map rank cards). snd e = 2]"
      by (simp only: mset_filter mc)
    then show "mset (map fst [e \<leftarrow> Counter (map rank cards'). snd e = 2]) =
          mset (map fst [e \<leftarrow> Counter (map rank cards). snd e = 2])"
      using arg_cong[of _ _ "image_mset fst"] by simp
  qed
  show ?thesis
    unfolding evaluate_5_def Let_def
    by (simp only: t1 t2 t3 t4 t5 t6 t7 t8 t9)
qed

subsection \<open>Combinations and the best-hand loop\<close>

lemma combinations_iff:
  "c \<in> set (combinations xs k) \<longleftrightarrow> subseq c xs \<and> length c = k"
proof (induction xs k arbitrary: c rule: combinations.induct)
  case (1 xs)
  then show ?case by auto
next
  case (2 k)
  then show ?case by auto
next
  case (3 x xs k)
  show ?case
  proof (cases c)
    case Nil
    then show ?thesis using 3 by auto
  next
    case (Cons y c')
    then show ?thesis using 3 subseq_Cons'[of y c' xs] by auto
  qed
qed

lemma combinations_length: "c \<in> set (combinations xs k) \<Longrightarrow> length c = k"
  by (simp add: combinations_iff)

lemma combinations_nonempty: "k \<le> length xs \<Longrightarrow> combinations xs k \<noteq> []"
proof -
  assume "k \<le> length xs"
  then have "take k xs \<in> set (combinations xs k)"
    using prefix_imp_subseq[OF take_is_prefix, of k xs] by (simp add: combinations_iff)
  then show ?thesis by auto
qed

lemma best_hand_loop_invariant:
  assumes "\<And>c. c \<in> set cs \<Longrightarrow> length c = 5"
    and "evaluate_5 bc = Inr b" and "length bc = 5"
  shows "\<exists>b' bc'. best_hand_loop (Some b, Some bc) cs = Inr (Some b', Some bc') \<and>
           evaluate_5 bc' = Inr b' \<and> bc' \<in> set (bc # cs) \<and>
           score_key b \<le> score_key b' \<and>
           (\<forall>c s. c \<in> set cs \<longrightarrow> evaluate_5 c = Inr s \<longrightarrow> score_key s \<le> score_key b')"
  using assms
proof (induction cs arbitrary: b bc)
  case Nil
  then show ?case by simp
next
  case (Cons c cs)
  have lc: "length c = 5" using Cons.prems(1) by simp
  obtain v where v: "evaluate_5 c = Inr v" and hv: "hand_score v"
    using evaluate_5_hand_score[OF lc] by blast
  have hb: "hand_score b"
    using evaluate_5_hand_score[OF Cons.prems(3)] Cons.prems(2) by auto
  have cmp: "tuple_cmp Gt v b = Inr (score_key b < score_key v)"
    using tuple_cmp_hand_score[OF hv hb, of Gt] by simp
  show ?case
  proof (cases "score_key b < score_key v")
    case True
    have step: "best_hand_loop (Some b, Some bc) (c # cs) = best_hand_loop (Some v, Some c) cs"
      using True by (simp add: v cmp bind_Inr)
    from Cons.IH[of c v] Cons.prems(1) v lc
    obtain b' bc' where r: "best_hand_loop (Some v, Some c) cs = Inr (Some b', Some bc')"
      "evaluate_5 bc' = Inr b'" "bc' \<in> set (c # cs)" "score_key v \<le> score_key b'"
      "\<forall>c s. c \<in> set cs \<longrightarrow> evaluate_5 c = Inr s \<longrightarrow> score_key s \<le> score_key b'"
      by auto
    show ?thesis
      unfolding step using r True v by auto
  next
    case False
    have step: "best_hand_loop (Some b, Some bc) (c # cs) = best_hand_loop (Some b, Some bc) cs"
      using False by (simp add: v cmp bind_Inr)
    from Cons.IH[of bc b] Cons.prems
    obtain b' bc' where r: "best_hand_loop (Some b, Some bc) cs = Inr (Some b', Some bc')"
      "evaluate_5 bc' = Inr b'" "bc' \<in> set (bc # cs)" "score_key b \<le> score_key b'"
      "\<forall>c s. c \<in> set cs \<longrightarrow> evaluate_5 c = Inr s \<longrightarrow> score_key s \<le> score_key b'"
      by auto
    show ?thesis
      unfolding step using r False v by auto
  qed
qed

lemma best_hand_result:
  assumes "5 \<le> length pool"
  shows "\<exists>b bc. best_hand pool = Inr (Some b, Some bc) \<and>
           evaluate_5 bc = Inr b \<and> hand_score b \<and> bc \<in> set (combinations pool 5) \<and>
           (\<forall>c s. c \<in> set (combinations pool 5) \<longrightarrow> evaluate_5 c = Inr s \<longrightarrow>
                  score_key s \<le> score_key b)"
proof -
  obtain c cs where cc: "combinations pool 5 = c # cs"
    using combinations_nonempty[OF assms] by (cases "combinations pool 5") auto
  have len: "length x = 5" if "x \<in> set (c # cs)" for x
    using that combinations_length[of x pool 5] by (simp add: cc)
  obtain v where v: "evaluate_5 c = Inr v"
    using evaluate_5_hand_score[of c] len by auto
  have first: "best_hand pool = best_hand_loop (Some v, Some c) cs"
    by (simp add: best_hand_def cc v bind_Inr)
  from best_hand_loop_invariant[of cs c v] len v
  obtain b' bc' where r: "best_hand_loop (Some v, Some c) cs = Inr (Some b', Some bc')"
      "evaluate_5 bc' = Inr b'" "bc' \<in> set (c # cs)" "score_key v \<le> score_key b'"
      "\<forall>c s. c \<in> set cs \<longrightarrow> evaluate_5 c = Inr s \<longrightarrow> score_key s \<le> score_key b'"
    by auto
  have "hand_score b'"
    using evaluate_5_hand_score[of bc'] len[OF r(3)] r(2) by auto
  then show ?thesis
    unfolding first cc using r v by auto
qed

subsection \<open>The showdown maximum\<close>

lemma max_loop_invariant:
  assumes "hand_score m" and "\<And>x. x \<in> set xs \<Longrightarrow> \<exists>s. x = Some s \<and> hand_score s"
  shows "\<exists>b. max_loop (Some m) xs = Inr (Some b) \<and> hand_score b \<and>
           Some b \<in> set (Some m # xs) \<and> score_key m \<le> score_key b \<and>
           (\<forall>s. Some s \<in> set xs \<longrightarrow> score_key s \<le> score_key b)"
  using assms
proof (induction xs arbitrary: m)
  case Nil
  then show ?case by simp
next
  case (Cons x xs)
  obtain s where x: "x = Some s" and hs: "hand_score s"
    using Cons.prems(2)[of x] by auto
  have cmp: "tuple_cmp Gt s m = Inr (score_key m < score_key s)"
    using tuple_cmp_hand_score[OF hs Cons.prems(1), of Gt] by simp
  show ?case
  proof (cases "score_key m < score_key s")
    case True
    have step: "max_loop (Some m) (x # xs) = max_loop (Some s) xs"
      using True by (simp add: x cmp bind_Inr)
    from Cons.IH[of s] hs Cons.prems(2)
    obtain b where r: "max_loop (Some s) xs = Inr (Some b)" "hand_score b"
      "Some b \<in> set (Some s # xs)" "score_key s \<le> score_key b"
      "\<forall>t. Some t \<in> set xs \<longrightarrow> score_key t \<le> score_key b"
      by auto
    show ?thesis unfolding step using r True x by auto
  next
    case False
    have step: "max_loop (Some m) (x # xs) = max_loop (Some m) xs"
      using False by (simp add: x cmp bind_Inr)
    from Cons.IH[of m] Cons.prems
    obtain b where r: "max_loop (Some m) xs = Inr (Some b)" "hand_score b"
      "Some b \<in> set (Some m # xs)" "score_key m \<le> score_key b"
      "\<forall>t. Some t \<in> set xs \<longrightarrow> score_key t \<le> score_key b"
      by auto
    show ?thesis unfolding step using r False x by auto
  qed
qed

lemma max_score_result:
  assumes "xs \<noteq> []" and "\<And>x. x \<in> set xs \<Longrightarrow> \<exists>s. x = Some s \<and> hand_score s"
  shows "\<exists>b. max_score xs = Inr (Some b) \<and> hand_score b \<and> Some b \<in> set xs \<and>
           (\<forall>s. Some s \<in> set xs \<longrightarrow> score_key s \<le> score_key b)"
proof -
  obtain x ys where xs: "xs = x # ys" using assms(1) by (cases xs) auto
  obtain m where m: "x = Some m" "hand_score m" using assms(2)[of x] xs by auto
  from max_loop_invariant[of m ys] m assms(2) xs
  obtain b where r: "max_loop (Some m) ys = Inr (Some b)" "hand_score b"
      "Some b \<in> set (Some m # ys)" "score_key m \<le> score_key b"
      "\<forall>t. Some t \<in> set ys \<longrightarrow> score_key t \<le> score_key b"
    by auto
  show ?thesis using r m by (auto simp: xs)
qed

subsection \<open>Order and types of hand scores\<close>

lemma length_combinations: "length (combinations xs k) = length xs choose k"
  by (induction xs k rule: combinations.induct) auto

lemma same_type_shape:
  "list_all2 has_shape a sh \<Longrightarrow> list_all2 has_shape b sh \<Longrightarrow> list_all2 same_type a b"
proof (induction sh arbitrary: a b)
  case Nil
  then show ?case by simp
next
  case (Cons s sh)
  from Cons.prems obtain x a' y b' where
    a: "a = x # a'" and b: "b = y # b'" and
    x: "has_shape x s" and y: "has_shape y s" and
    a': "list_all2 has_shape a' sh" and b': "list_all2 has_shape b' sh"
    by (auto simp: list_all2_Cons2)
  have "same_type x y" using x y by (cases s; cases x; cases y) auto
  then show ?case using Cons.IH[OF a' b'] by (simp add: a b)
qed

lemma hand_score_same_type:
  assumes "hand_score a" "hand_score b" "category a = category b"
  shows "length a = length b \<and> list_all2 same_type a b"
proof -
  from assms(1) obtain c ra where a: "a = PInt c # ra"
    and sa: "list_all2 has_shape ra (category_shape c)" by (rule hand_scoreE)
  from assms(2) obtain d rb where b: "b = PInt d # rb"
    and sb: "list_all2 has_shape rb (category_shape d)" by (rule hand_scoreE)
  have cd: "c = d" using assms(3) by (simp add: a b category_def)
  have "list_all2 same_type ra rb" using same_type_shape[OF sa, of rb] sb cd by simp
  then show ?thesis by (auto simp: a b dest: list_all2_lengthD)
qed

lemma hand_score_trichotomy:
  assumes "hand_score a" "hand_score b"
  shows "tuple_cmp Gt a b = Inr True \<or> a = b \<or> tuple_cmp Gt b a = Inr True"
proof -
  have "tuple_cmp Gt a b = Inr (score_key b < score_key a)"
    using tuple_cmp_hand_score[OF assms, of Gt] by simp
  moreover have "tuple_cmp Gt b a = Inr (score_key a < score_key b)"
    using tuple_cmp_hand_score[OF assms(2) assms(1), of Gt] by simp
  moreover have "score_key a = score_key b \<Longrightarrow> a = b"
    using score_key_inj[OF assms] .
  ultimately show ?thesis by force
qed

lemma hand_score_category_order:
  assumes "hand_score a" "hand_score b" "category b < category a"
  shows "tuple_cmp Gt a b = Inr True"
proof -
  from assms(1) obtain c ra where a: "a = PInt c # ra" by (rule hand_scoreE)
  from assms(2) obtain d rb where b: "b = PInt d # rb" by (rule hand_scoreE)
  show ?thesis using assms(3) by (simp add: a b category_def)
qed

subsection \<open>Hands of pairwise different ranks\<close>

lemma evaluate_5_distinct_ranks:
  assumes "cards \<noteq> []" and "distinct (map rank cards)"
  shows "\<exists>s. evaluate_5 cards = Inr s"
proof -
  define ranks where "ranks = map rank cards"
  define freqs where "freqs = sorted_reverse (map snd (Counter ranks))"
  have one: "f = 1" if "f \<in> set freqs" for f
  proof -
    from that obtain k where "(k, f) \<in> set (Counter ranks)"
      by (auto simp: freqs_def set_sorted_reverse)
    then have "k \<in> set ranks" "f = count_list ranks k" by (simp_all add: Counter_entry)
    then show ?thesis
      using assms(2) by (simp add: ranks_def distinct_count_atmost_1 flip: count_mset)
  qed
  have "length freqs = length (Counter ranks)"
    by (simp add: freqs_def length_sorted_reverse)
  moreover have "Counter ranks \<noteq> []"
    using Counter_keys[of ranks] assms(1) by (auto simp: ranks_def)
  ultimately obtain f0 rest where fr: "freqs = f0 # rest" by (cases freqs) auto
  then have "f0 = 1" using one[of f0] by simp
  then have i0: "index (sorted_reverse (map snd (Counter (map rank cards)))) 0 = Inr 1"
    using fr by (simp add: index_Cons0 freqs_def ranks_def)
  show ?thesis
    unfolding evaluate_5_def Let_def i0 by (simp add: bind_Inr)
qed

section \<open>Claims about straight detection\<close>

text \<open>
  C5: \<^verbatim>\<open>is_straight\<close> on the wheel 14,2,3,4,5 gives a straight with top rank 5, on
  10,11,12,13,14 a straight with top rank 14, and on 2,2,3,4,5 (four distinct ranks) no
  straight.
\<close>

theorem is_straight_examples:
  "is_straight [14, 2, 3, 4, 5] = (True, Some 5) \<and>
   is_straight [10, 11, 12, 13, 14] = (True, Some 14) \<and>
   is_straight [2, 2, 3, 4, 5] = (False, None)"
  by (simp add: is_straight_def)

text \<open>
  C1: on more than five distinct ranks with several windows of five consecutive values,
  \<^verbatim>\<open>is_straight\<close> should return the highest window top. On 2,3,4,5,6,7 the windows
  have tops 6 and 7, and the scan, which runs upwards and stops at its first match,
  returns 6.
\<close>

theorem is_straight_first_window:
  "is_straight [2, 3, 4, 5, 6, 7] = (True, Some 6) \<and>
   spec_window_tops [2, 3, 4, 5, 6, 7] = [6, 7]"
  by (simp add: is_straight_def spec_window_tops_def upt_rec)

section \<open>Claims about calls with the wrong number of cards\<close>

text \<open>
  C2, as stated: a call with the wrong number of cards is rejected with an error. It is
  not: \<^verbatim>\<open>best_hand\<close> on one card returns \<^verbatim>\<open>(None, None)\<close>, and
  \<^verbatim>\<open>evaluate_5\<close> scores one card, and six cards, as a flush.
\<close>

theorem wrong_size_not_rejected:
  "best_hand [new_Card 14 Spades] = Inr (None, None) \<and>
   evaluate_5 [new_Card 14 Spades] = Inr [PInt 6, PList [14]] \<and>
   evaluate_5 [new_Card 14 Spades, new_Card 13 Spades, new_Card 12 Spades,
               new_Card 11 Spades, new_Card 9 Spades, new_Card 7 Spades] =
     Inr [PInt 6, PList [14, 13, 12, 11, 9, 7]]"
  by code_simp

text \<open>
  C2, amended: neither function checks the number of cards. \<^verbatim>\<open>best_hand\<close> on fewer
  than five cards finds no combination and returns \<^verbatim>\<open>(None, None)\<close> without an
  error. \<^verbatim>\<open>evaluate_5\<close> on no cards raises \<^verbatim>\<open>IndexError\<close> (from
  \<^verbatim>\<open>freqs[0]\<close>); on a single card it returns the flush score of its rank; and on
  any non-empty list of cards of pairwise different ranks, whatever its length, it
  returns a score.
\<close>

theorem no_length_check:
  "(length cards < 5 \<longrightarrow> best_hand cards = Inr (None, None)) \<and>
   evaluate_5 [] = Inl IndexError \<and>
   evaluate_5 [c] = Inr [PInt 6, PList [rank c]] \<and>
   (hand \<noteq> [] \<and> distinct (map rank hand) \<longrightarrow> (\<exists>s. evaluate_5 hand = Inr s))"
proof -
  have "length cards < 5 \<longrightarrow> best_hand cards = Inr (None, None)"
    by (simp add: best_hand_def combinations_short)
  moreover have "evaluate_5 [] = Inl IndexError"
    by (simp add: evaluate_5_def Counter_def sorted_reverse_def is_straight_def
        bind_def index_def)
  moreover have "evaluate_5 [c] = Inr [PInt 6, PList [rank c]]"
    by (simp add: evaluate_5_def Counter_def sorted_reverse_def is_straight_def
        bind_def index_def)
  moreover have "hand \<noteq> [] \<and> distinct (map rank hand) \<longrightarrow> (\<exists>s. evaluate_5 hand = Inr s)"
    using evaluate_5_distinct_ranks[of hand] by blast
  ultimately show ?thesis by blast
qed

theorem no_length_check_witness:
  "length [new_Card 14 Spades, new_Card 14 Hearts] < 5 \<and>
   best_hand [new_Card 14 Spades, new_Card 14 Hearts] = Inr (None, None) \<and>
   evaluate_5 [new_Card 14 Spades] = Inr [PInt 6, PList [rank (new_Card 14 Spades)]] \<and>
   [new_Card 14 Spades, new_Card 13 Spades, new_Card 12 Spades,
    new_Card 11 Spades, new_Card 9 Spades, new_Card 7 Spades] \<noteq> [] \<and>
   distinct (map rank [new_Card 14 Spades, new_Card 13 Spades, new_Card 12 Spades,
                       new_Card 11 Spades, new_Card 9 Spades, new_Card 7 Spades]) \<and>
   (\<exists>s. evaluate_5 [new_Card 14 Spades, new_Card 13 Spades, new_Card 12 Spades,
                     new_Card 11 Spades, new_Card 9 Spades, new_Card 7 Spades] = Inr s)"
proof -
  let ?six = "[new_Card 14 Spades, new_Card 13 Spades, new_Card 12 Spades,
               new_Card 11 Spades, new_Card 9 Spades, new_Card 7 Spades]"
  have h1: "length [new_Card 14 Spades, new_Card 14 Hearts] < 5" by simp
  have h2: "?six \<noteq> []" by simp
  have h3: "distinct (map rank ?six)" by (simp add: new_Card_def)
  show ?thesis
    using no_length_check[of "[new_Card 14 Spades, new_Card 14 Hearts]"
        "new_Card 14 Spades" ?six] h1 h2 h3
    by blast
qed

section \<open>Claims about the best hand of a pool\<close>

text \<open>
  C7: on the scenario pool \<^verbatim>\<open>best_hand\<close> returns the full house, aces over kings:
  the score \<^verbatim>\<open>(7, 14, 13)\<close>, with the three aces and the two kings as its cards.
\<close>

theorem best_hand_scenario:
  "best_hand scenario_pool =
     Inr (Some [PInt 7, PInt 14, PInt 13],
          Some [new_Card 14 Spades, new_Card 14 Hearts, new_Card 14 Diamonds,
                new_Card 13 Clubs, new_Card 13 Hearts])"
  by code_simp

text \<open>
  C9: for every pool of at least five cards, \<^verbatim>\<open>best_hand\<close> returns a score and a
  combination; the combination is a five-card subsequence of the pool (so its cards are
  cards of the pool), and \<^verbatim>\<open>evaluate_5\<close> of the combination is the score.
\<close>

theorem best_hand_consistent:
  assumes "5 \<le> length pool"
  shows "\<exists>score combo. best_hand pool = Inr (Some score, Some combo) \<and>
           length combo = 5 \<and> subseq combo pool \<and> set combo \<subseteq> set pool \<and>
           evaluate_5 combo = Inr score"
proof -
  from best_hand_result[OF assms]
  obtain b bc where r: "best_hand pool = Inr (Some b, Some bc)" "evaluate_5 bc = Inr b"
    "bc \<in> set (combinations pool 5)" by blast
  have "subseq bc pool" "length bc = 5" using r(3) by (simp_all add: combinations_iff)
  moreover have "set bc \<subseteq> set pool"
    using \<open>subseq bc pool\<close> by (auto elim: list_emb_set)
  ultimately show ?thesis using r by blast
qed

theorem best_hand_consistent_witness:
  "5 \<le> length scenario_pool \<and>
   (\<exists>score combo. best_hand scenario_pool = Inr (Some score, Some combo) \<and>
      length combo = 5 \<and> subseq combo scenario_pool \<and> set combo \<subseteq> set scenario_pool \<and>
      evaluate_5 combo = Inr score)"
proof -
  have h: "5 \<le> length scenario_pool" by (simp add: scenario_pool_def)
  show ?thesis using h best_hand_consistent[OF h] by blast
qed

text \<open>
  C3: for every pool of seven distinct cards, \<^verbatim>\<open>best_hand\<close> examines 21
  combinations and returns a score that is greater than or equal to (Python's
  \<^verbatim>\<open>>=\<close> on the score tuples) the score \<^verbatim>\<open>evaluate_5\<close> gives to any five
  distinct cards of the pool, in whatever order they are listed.
\<close>

theorem best_hand_maximal:
  assumes "length pool = 7" and "distinct pool"
    and "length sub = 5" and "distinct sub" and "set sub \<subseteq> set pool"
  shows "length (combinations pool 5) = 21 \<and>
         (\<exists>score combo s. best_hand pool = Inr (Some score, Some combo) \<and>
            evaluate_5 sub = Inr s \<and> tuple_cmp Ge score s = Inr True)"
proof -
  define sub' where "sub' = filter (\<lambda>x. x \<in> set sub) pool"
  have "distinct sub'" using assms(2) by (simp add: sub'_def)
  moreover have "set sub' = set sub" using assms(5) by (auto simp: sub'_def)
  ultimately have ms: "mset sub' = mset sub"
    using assms(4) by (simp add: set_eq_iff_mset_eq_distinct)
  then have "length sub' = 5" using assms(3) by (metis size_mset)
  moreover have "subseq sub' pool" by (simp add: sub'_def)
  ultimately have mem: "sub' \<in> set (combinations pool 5)" by (simp add: combinations_iff)
  have ev: "evaluate_5 sub = evaluate_5 sub'"
    using evaluate_5_perm[OF ms] by simp
  have "5 \<le> length pool" using assms(1) by simp
  from best_hand_result[OF this]
  obtain b bc where r: "best_hand pool = Inr (Some b, Some bc)" "hand_score b"
    "\<forall>c s. c \<in> set (combinations pool 5) \<longrightarrow> evaluate_5 c = Inr s \<longrightarrow>
           score_key s \<le> score_key b" by blast
  obtain s where s: "evaluate_5 sub = Inr s" "hand_score s"
    using evaluate_5_hand_score[OF assms(3)] by blast
  have "score_key s \<le> score_key b" using r(3) mem s(1) ev by simp
  then have "tuple_cmp Ge b s = Inr True"
    using tuple_cmp_hand_score[OF r(2) s(2), of Ge] by simp
  moreover have "length (combinations pool 5) = 21"
    by (simp add: length_combinations assms(1) eval_nat_numeral binomial_Suc_Suc)
  ultimately show ?thesis using r(1) s(1) by blast
qed

theorem best_hand_maximal_witness:
  "length scenario_pool = 7 \<and> distinct scenario_pool \<and>
   length [new_Card 3 Diamonds, new_Card 13 Hearts, new_Card 14 Hearts,
           new_Card 2 Spades, new_Card 13 Clubs] = 5 \<and>
   distinct [new_Card 3 Diamonds, new_Card 13 Hearts, new_Card 14 Hearts,
             new_Card 2 Spades, new_Card 13 Clubs] \<and>
   set [new_Card 3 Diamonds, new_Card 13 Hearts, new_Card 14 Hearts,
        new_Card 2 Spades, new_Card 13 Clubs] \<subseteq> set scenario_pool \<and>
   length (combinations scenario_pool 5) = 21 \<and>
   (\<exists>score combo s. best_hand scenario_pool = Inr (Some score, Some combo) \<and>
      evaluate_5 [new_Card 3 Diamonds, new_Card 13 Hearts, new_Card 14 Hearts,
                  new_Card 2 Spades, new_Card 13 Clubs] = Inr s \<and>
      tuple_cmp Ge score s = Inr True)"
proof -
  have h1: "length scenario_pool = 7" by (simp add: scenario_pool_def)
  have h2: "distinct scenario_pool" by (simp add: scenario_pool_def new_Card_def)
  have h3: "length [new_Card 3 Diamonds, new_Card 13 Hearts, new_Card 14 Hearts,
           new_Card 2 Spades, new_Card 13 Clubs] = 5" by simp
  have h4: "distinct [new_Card 3 Diamonds, new_Card 13 Hearts, new_Card 14 Hearts,
             new_Card 2 Spades, new_Card 13 Clubs]" by (simp add: new_Card_def)
  have h5: "set [new_Card 3 Diamonds, new_Card 13 Hearts, new_Card 14 Hearts,
        new_Card 2 Spades, new_Card 13 Clubs] \<subseteq> set scenario_pool"
    by (simp add: scenario_pool_def)
  show ?thesis using best_hand_maximal[OF h1 h2 h3 h4 h5] h1 h2 h3 h4 h5 by blast
qed

section \<open>Claims about the winners of a showdown\<close>

text \<open>
  C4: given the players' results in insertion order, each holding a hand score, the
  showdown lines return without error the names of exactly the players whose score
  equals the maximum: the maximum is the score of some player and is greater than or
  equal to every player's score, every player holding it is reported, and the winners
  are listed in the players' insertion order.
\<close>

theorem winners_are_the_maximal_players:
  assumes "results \<noteq> []"
    and "\<forall>e \<in> set results. \<exists>s. fst (snd e) = Some s \<and> hand_score s"
  shows "\<exists>best ws. winners results = Inr ws \<and>
           Some best \<in> set (map (\<lambda>e. fst (snd e)) results) \<and>
           (\<forall>e \<in> set results. \<forall>s. fst (snd e) = Some s \<longrightarrow> tuple_cmp Ge best s = Inr True) \<and>
           ws = map fst [e \<leftarrow> results. fst (snd e) = Some best] \<and>
           set ws = {p. \<exists>combo. (p, Some best, combo) \<in> set results} \<and>
           subseq ws (map fst results)"
proof -
  define scores where "scores = map (\<lambda>(p, score, combo). score) results"
  have sc: "scores = map (\<lambda>e. fst (snd e)) results"
    by (simp add: scores_def case_prod_unfold)
  have ne: "scores \<noteq> []" using assms(1) by (simp add: sc)
  have hs: "\<exists>s. x = Some s \<and> hand_score s" if "x \<in> set scores" for x
    using that assms(2) by (auto simp: sc)
  from max_score_result[OF ne hs]
  obtain b where r: "max_score scores = Inr (Some b)" "hand_score b" "Some b \<in> set scores"
    "\<forall>s. Some s \<in> set scores \<longrightarrow> score_key s \<le> score_key b" by blast
  have w: "winners results = Inr (map fst [e \<leftarrow> results. fst (snd e) = Some b])"
    using r(1) by (simp add: winners_def bind_Inr flip: scores_def)
  have ge: "tuple_cmp Ge b s = Inr True" if "e \<in> set results" "fst (snd e) = Some s" for e s
  proof -
    have "Some s \<in> set scores" using that by (force simp: sc)
    moreover have "hand_score s" using that assms(2) by auto
    ultimately show ?thesis using tuple_cmp_hand_score[OF r(2), of s Ge] r(4) by simp
  qed
  have st: "set (map fst [e \<leftarrow> results. fst (snd e) = Some b]) =
            {p. \<exists>combo. (p, Some b, combo) \<in> set results}"
    by force
  have sq: "subseq (map fst [e \<leftarrow> results. fst (snd e) = Some b]) (map fst results)"
    by (simp add: subseq_map)
  show ?thesis
    using w r(3) ge st sq unfolding sc by blast
qed

text \<open>
  A showdown of three players on the board ace of spades, king of diamonds, nine of
  hearts, seven of clubs, three of spades. The first holds ace and king, the second two
  queens, the third the other ace and king: the results are what \<^verbatim>\<open>best_hand\<close>
  returns for each, the first and the third tie with aces and kings, and both are
  reported, in insertion order.
\<close>

theorem winners_are_the_maximal_players_witness:
  "best_hand [new_Card 14 Hearts, new_Card 13 Clubs, new_Card 14 Spades, new_Card 13 Diamonds,
              new_Card 9 Hearts, new_Card 7 Clubs, new_Card 3 Spades] =
     Inr (Some [PInt 3, PInt 14, PInt 13, PInt 9],
          Some [new_Card 14 Hearts, new_Card 13 Clubs, new_Card 14 Spades,
                new_Card 13 Diamonds, new_Card 9 Hearts]) \<and>
   best_hand [new_Card 12 Spades, new_Card 12 Diamonds, new_Card 14 Spades, new_Card 13 Diamonds,
              new_Card 9 Hearts, new_Card 7 Clubs, new_Card 3 Spades] =
     Inr (Some [PInt 2, PInt 12, PList [14, 13, 9]],
          Some [new_Card 12 Spades, new_Card 12 Diamonds, new_Card 14 Spades,
                new_Card 13 Diamonds, new_Card 9 Hearts]) \<and>
   best_hand [new_Card 14 Diamonds, new_Card 13 Hearts, new_Card 14 Spades, new_Card 13 Diamonds,
              new_Card 9 Hearts, new_Card 7 Clubs, new_Card 3 Spades] =
     Inr (Some [PInt 3, PInt 14, PInt 13, PInt 9],
          Some [new_Card 14 Diamonds, new_Card 13 Hearts, new_Card 14 Spades,
                new_Card 13 Diamonds, new_Card 9 Hearts]) \<and>
   hand_score [PInt 3, PInt 14, PInt 13, PInt 9] \<and>
   hand_score [PInt 2, PInt 12, PList [14, 13, 9]] \<and>
   winners
     [(''P1'', Some [PInt 3, PInt 14, PInt 13, PInt 9],
         Some [new_Card 14 Hearts, new_Card 13 Clubs, new_Card 14 Spades,
               new_Card 13 Diamonds, new_Card 9 Hearts]),
      (''P2'', Some [PInt 2, PInt 12, PList [14, 13, 9]],
         Some [new_Card 12 Spades, new_Card 12 Diamonds, new_Card 14 Spades,
               new_Card 13 Diamonds, new_Card 9 Hearts]),
      (''P3'', Some [PInt 3, PInt 14, PInt 13, PInt 9],
         Some [new_Card 14 Diamonds, new_Card 13 Hearts, new_Card 14 Spades,
               new_Card 13 Diamonds, new_Card 9 Hearts])] = Inr [''P1'', ''P3'']"
proof -
  let ?r = "[(''P1'', Some [PInt 3, PInt 14, PInt 13, PInt 9],
         Some [new_Card 14 Hearts, new_Card 13 Clubs, new_Card 14 Spades,
               new_Card 13 Diamonds, new_Card 9 Hearts]),
      (''P2'', Some [PInt 2, PInt 12, PList [14, 13, 9]],
         Some [new_Card 12 Spades, new_Card 12 Diamonds, new_Card 14 Spades,
               new_Card 13 Diamonds, new_Card 9 Hearts]),
      (''P3'', Some [PInt 3, PInt 14, PInt 13, PInt 9],
         Some [new_Card 14 Diamonds, new_Card 13 Hearts, new_Card 14 Spades,
               new_Card 13 Diamonds, new_Card 9 Hearts])]"
  have b1: "best_hand [new_Card 14 Hearts, new_Card 13 Clubs, new_Card 14 Spades,
              new_Card 13 Diamonds, new_Card 9 Hearts, new_Card 7 Clubs, new_Card 3 Spades] =
     Inr (Some [PInt 3, PInt 14, PInt 13, PInt 9],
          Some [new_Card 14 Hearts, new_Card 13 Clubs, new_Card 14 Spades,
                new_Card 13 Diamonds, new_Card 9 Hearts])"
    by code_simp
  have b2: "best_hand [new_Card 12 Spades, new_Card 12 Diamonds, new_Card 14 Spades,
              new_Card 13 Diamonds, new_Card 9 Hearts, new_Card 7 Clubs, new_Card 3 Spades] =
     Inr (Some [PInt 2, PInt 12, PList [14, 13, 9]],
          Some [new_Card 12 Spades, new_Card 12 Diamonds, new_Card 14 Spades,
                new_Card 13 Diamonds, new_Card 9 Hearts])"
    by code_simp
  have b3: "best_hand [new_Card 14 Diamonds, new_Card 13 Hearts, new_Card 14 Spades,
              new_Card 13 Diamonds, new_Card 9 Hearts, new_Card 7 Clubs, new_Card 3 Spades] =
     Inr (Some [PInt 3, PInt 14, PInt 13, PInt 9],
          Some [new_Card 14 Diamonds, new_Card 13 Hearts, new_Card 14 Spades,
                new_Card 13 Diamonds, new_Card 9 Hearts])"
    by code_simp
  have h1: "?r \<noteq> []" by simp
  have f: "hand_score [PInt 3, PInt 14, PInt 13, PInt 9]"
    by (simp add: hand_score_def category_shape_def)
  have p: "hand_score [PInt 2, PInt 12, PList [14, 13, 9]]"
    by (simp add: hand_score_def category_shape_def)
  have h2: "\<forall>e \<in> set ?r. \<exists>s. fst (snd e) = Some s \<and> hand_score s"
    using f p by simp
  from winners_are_the_maximal_players[OF h1 h2]
  obtain best ws where r: "winners ?r = Inr ws"
    "(\<forall>e \<in> set ?r. \<forall>s. fst (snd e) = Some s \<longrightarrow> tuple_cmp Ge best s = Inr True)"
    "ws = map fst [e \<leftarrow> ?r. fst (snd e) = Some best]"
    "Some best \<in> set (map (\<lambda>e. fst (snd e)) ?r)"
    by blast
  have "best = [PInt 3, PInt 14, PInt 13, PInt 9]"
    using r(2) r(4) by auto
  then have "ws = [''P1'', ''P3'']" using r(3) by simp
  then have "winners ?r = Inr [''P1'', ''P3'']" using r(1) by simp
  then show ?thesis using b1 b2 b3 f p by simp
qed

section \<open>Claims about the scores of five cards\<close>

text \<open>
  C6: for every list of five distinct cards, \<^verbatim>\<open>evaluate_5\<close> returns a score whose
  first element is a category between 1 and 9, and every reordering of the same cards
  gets the identical score.
\<close>

theorem evaluate_5_category_and_order_independence:
  assumes "length cards = 5" and "distinct cards" and "mset cards' = mset cards"
  shows "\<exists>c rest. evaluate_5 cards = Inr (PInt c # rest) \<and> 1 \<le> c \<and> c \<le> 9 \<and>
           evaluate_5 cards' = Inr (PInt c # rest)"
proof -
  obtain s where s: "evaluate_5 cards = Inr s" "hand_score s"
    using evaluate_5_hand_score[OF assms(1)] by blast
  from s(2) obtain c rest where "s = PInt c # rest" "1 \<le> c" "c \<le> 9"
    by (rule hand_scoreE)
  then show ?thesis using s(1) evaluate_5_perm[OF assms(3)] by simp
qed

theorem evaluate_5_category_and_order_independence_witness:
  "length [new_Card 14 Spades, new_Card 14 Hearts, new_Card 14 Diamonds,
           new_Card 13 Clubs, new_Card 13 Hearts] = 5 \<and>
   distinct [new_Card 14 Spades, new_Card 14 Hearts, new_Card 14 Diamonds,
             new_Card 13 Clubs, new_Card 13 Hearts] \<and>
   mset [new_Card 13 Hearts, new_Card 14 Diamonds, new_Card 13 Clubs,
         new_Card 14 Spades, new_Card 14 Hearts] =
   mset [new_Card 14 Spades, new_Card 14 Hearts, new_Card 14 Diamonds,
         new_Card 13 Clubs, new_Card 13 Hearts] \<and>
   (\<exists>c rest.
      evaluate_5 [new_Card 14 Spades, new_Card 14 Hearts, new_Card 14 Diamonds,
                  new_Card 13 Clubs, new_Card 13 Hearts] = Inr (PInt c # rest) \<and>
      1 \<le> c \<and> c \<le> 9 \<and>
      evaluate_5 [new_Card 13 Hearts, new_Card 14 Diamonds, new_Card 13 Clubs,
                  new_Card 14 Spades, new_Card 14 Hearts] = Inr (PInt c # rest))"
proof -
  let ?a = "[new_Card 14 Spades, new_Card 14 Hearts, new_Card 14 Diamonds,
             new_Card 13 Clubs, new_Card 13 Hearts]"
  let ?b = "[new_Card 13 Hearts, new_Card 14 Diamonds, new_Card 13 Clubs,
             new_Card 14 Spades, new_Card 14 Hearts]"
  have h1: "length ?a = 5" by simp
  have h2: "distinct ?a" by (simp add: new_Card_def)
  have h3: "mset ?b = mset ?a" by (simp add: new_Card_def)
  show ?thesis
    using evaluate_5_category_and_order_independence[OF h1 h2 h3] h1 h2 h3 by blast
qed

text \<open>
  C8: the order of the scores of five-card hands is total and follows the category: of
  two hands, the one of the higher category has the strictly greater score, so every
  full house (7) beats every flush (6) and every straight flush (9), the wheel included,
  beats every four of a kind (8); any two scores are either equal or one is strictly
  greater than the other, never both; and strictly greater is transitive.
\<close>

theorem category_order_total:
  assumes "length a = 5" and "length b = 5" and "length c = 5"
    and "evaluate_5 a = Inr sa" and "evaluate_5 b = Inr sb" and "evaluate_5 c = Inr sc"
  shows "(category sa = 7 \<and> category sb = 6 \<longrightarrow> tuple_cmp Gt sa sb = Inr True) \<and>
         (category sa = 9 \<and> category sb = 8 \<longrightarrow> tuple_cmp Gt sa sb = Inr True) \<and>
         (category sb < category sa \<longrightarrow> tuple_cmp Gt sa sb = Inr True) \<and>
         (tuple_cmp Gt sa sb = Inr True \<or> sa = sb \<or> tuple_cmp Gt sb sa = Inr True) \<and>
         \<not> (tuple_cmp Gt sa sb = Inr True \<and> tuple_cmp Gt sb sa = Inr True) \<and>
         (tuple_cmp Gt sa sb = Inr True \<and> tuple_cmp Gt sb sc = Inr True \<longrightarrow>
            tuple_cmp Gt sa sc = Inr True)"
proof -
  have ha: "hand_score sa" using evaluate_5_hand_score[OF assms(1)] assms(4) by auto
  have hb: "hand_score sb" using evaluate_5_hand_score[OF assms(2)] assms(5) by auto
  have hc: "hand_score sc" using evaluate_5_hand_score[OF assms(3)] assms(6) by auto
  have ord: "category sb < category sa \<Longrightarrow> tuple_cmp Gt sa sb = Inr True"
    using hand_score_category_order[OF ha hb] .
  have tri: "tuple_cmp Gt sa sb = Inr True \<or> sa = sb \<or> tuple_cmp Gt sb sa = Inr True"
    using hand_score_trichotomy[OF ha hb] .
  have ab: "tuple_cmp Gt sa sb = Inr (score_key sb < score_key sa)"
    using tuple_cmp_hand_score[OF ha hb, of Gt] by simp
  have ba: "tuple_cmp Gt sb sa = Inr (score_key sa < score_key sb)"
    using tuple_cmp_hand_score[OF hb ha, of Gt] by simp
  have bc: "tuple_cmp Gt sb sc = Inr (score_key sc < score_key sb)"
    using tuple_cmp_hand_score[OF hb hc, of Gt] by simp
  have ac: "tuple_cmp Gt sa sc = Inr (score_key sc < score_key sa)"
    using tuple_cmp_hand_score[OF ha hc, of Gt] by simp
  have asym: "\<not> (tuple_cmp Gt sa sb = Inr True \<and> tuple_cmp Gt sb sa = Inr True)"
    using ab ba by auto
  have trans: "tuple_cmp Gt sa sb = Inr True \<and> tuple_cmp Gt sb sc = Inr True \<longrightarrow>
      tuple_cmp Gt sa sc = Inr True"
    using ab bc ac by auto
  show ?thesis using ord tri asym trans by auto
qed

text \<open>
  The wheel straight flush in spades, four aces with a king, and an ace-high flush: the
  straight flush, with tie-break 5, has a greater score than the four aces, which have a
  greater score than the flush. The lowest full house, twos over threes, has a greater
  score than the ace-high flush.
\<close>

theorem category_order_total_witness:
  "length [new_Card 14 Spades, new_Card 2 Spades, new_Card 3 Spades,
           new_Card 4 Spades, new_Card 5 Spades] = 5 \<and>
   length [new_Card 14 Spades, new_Card 14 Hearts, new_Card 14 Diamonds,
           new_Card 14 Clubs, new_Card 13 Spades] = 5 \<and>
   length [new_Card 14 Hearts, new_Card 13 Hearts, new_Card 12 Hearts,
           new_Card 11 Hearts, new_Card 9 Hearts] = 5 \<and>
   evaluate_5 [new_Card 14 Spades, new_Card 2 Spades, new_Card 3 Spades,
               new_Card 4 Spades, new_Card 5 Spades] = Inr [PInt 9, PInt 5] \<and>
   evaluate_5 [new_Card 14 Spades, new_Card 14 Hearts, new_Card 14 Diamonds,
               new_Card 14 Clubs, new_Card 13 Spades] = Inr [PInt 8, PInt 14, PInt 13] \<and>
   evaluate_5 [new_Card 14 Hearts, new_Card 13 Hearts, new_Card 12 Hearts,
               new_Card 11 Hearts, new_Card 9 Hearts] =
     Inr [PInt 6, PList [14, 13, 12, 11, 9]] \<and>
   evaluate_5 [new_Card 2 Spades, new_Card 2 Hearts, new_Card 2 Diamonds,
               new_Card 3 Clubs, new_Card 3 Spades] = Inr [PInt 7, PInt 2, PInt 3] \<and>
   category [PInt 9, PInt 5] = 9 \<and> category [PInt 8, PInt 14, PInt 13] = 8 \<and>
   category [PInt 7, PInt 2, PInt 3] = 7 \<and>
   category [PInt 6, PList [14, 13, 12, 11, 9]] = 6 \<and>
   tuple_cmp Gt [PInt 9, PInt 5] [PInt 8, PInt 14, PInt 13] = Inr True \<and>
   tuple_cmp Gt [PInt 8, PInt 14, PInt 13] [PInt 6, PList [14, 13, 12, 11, 9]] = Inr True \<and>
   tuple_cmp Gt [PInt 9, PInt 5] [PInt 6, PList [14, 13, 12, 11, 9]] = Inr True \<and>
   tuple_cmp Gt [PInt 7, PInt 2, PInt 3] [PInt 6, PList [14, 13, 12, 11, 9]] = Inr True"
proof -
  let ?a = "[new_Card 14 Spades, new_Card 2 Spades, new_Card 3 Spades,
             new_Card 4 Spades, new_Card 5 Spades]"
  let ?b = "[new_Card 14 Spades, new_Card 14 Hearts, new_Card 14 Diamonds,
           new_Card 14 Clubs, new_Card 13 Spades]"
  let ?f = "[new_Card 2 Spades, new_Card 2 Hearts, new_Card 2 Diamonds,
             new_Card 3 Clubs, new_Card 3 Spades]"
  let ?g = "[new_Card 14 Hearts, new_Card 13 Hearts, new_Card 12 Hearts,
             new_Card 11 Hearts, new_Card 9 Hearts]"
  have h1: "length ?a = 5" by simp
  have h2: "length ?b = 5" by simp
  have h3: "evaluate_5 ?a = Inr [PInt 9, PInt 5]" by code_simp
  have h4: "evaluate_5 ?b = Inr [PInt 8, PInt 14, PInt 13]" by code_simp
  have g1: "length ?f = 5" by simp
  have g2: "length ?g = 5" by simp
  have g3: "evaluate_5 ?f = Inr [PInt 7, PInt 2, PInt 3]" by code_simp
  have g4: "evaluate_5 ?g = Inr [PInt 6, PList [14, 13, 12, 11, 9]]" by code_simp
  have c: "category [PInt 9, PInt 5] = 9" "category [PInt 8, PInt 14, PInt 13] = 8"
    "category [PInt 7, PInt 2, PInt 3] = 7"
    "category [PInt 6, PList [14, 13, 12, 11, 9]] = 6"
    by (simp_all add: category_def)
  have first: "tuple_cmp Gt [PInt 9, PInt 5] [PInt 8, PInt 14, PInt 13] = Inr True"
    using category_order_total[OF h1 h2 g2 h3 h4 g4] c by simp
  have second: "tuple_cmp Gt [PInt 8, PInt 14, PInt 13] [PInt 6, PList [14, 13, 12, 11, 9]] =
      Inr True"
    using category_order_total[OF h2 g2 g2 h4 g4 g4] c by simp
  have third: "tuple_cmp Gt [PInt 9, PInt 5] [PInt 6, PList [14, 13, 12, 11, 9]] = Inr True"
    using category_order_total[OF h1 h2 g2 h3 h4 g4] first second by blast
  have fourth: "tuple_cmp Gt [PInt 7, PInt 2, PInt 3] [PInt 6, PList [14, 13, 12, 11, 9]] =
      Inr True"
    using category_order_total[OF g1 g2 g2 g3 g4 g4] c by simp
  show ?thesis
    using first second third fourth h1 h2 g2 h3 h4 g3 g4 c by simp
qed

text \<open>
  C10: the score \<^verbatim>\<open>evaluate_5\<close> gives to five cards has the shape its category
  fixes: after the category, one integer for 9 and 5, two integers for 8 and 7, a list of
  five ranks for 6 and 1, an integer and a list of two kickers for 4, three integers for
  3, an integer and a list of three kickers for 2. Two such scores of the same category
  have the same length and elementwise the same types, and the comparison of any two of
  them raises no error and is total.
\<close>

theorem evaluate_5_score_shape:
  assumes "length a = 5" and "length b = 5"
  shows "\<exists>ca ra cb rb.
           evaluate_5 a = Inr (PInt ca # ra) \<and> evaluate_5 b = Inr (PInt cb # rb) \<and>
           1 \<le> ca \<and> ca \<le> 9 \<and> list_all2 has_shape ra (category_shape ca) \<and>
           1 \<le> cb \<and> cb \<le> 9 \<and> list_all2 has_shape rb (category_shape cb) \<and>
           (ca = cb \<longrightarrow> length ra = length rb \<and> list_all2 same_type ra rb) \<and>
           (\<exists>r. tuple_cmp Gt (PInt ca # ra) (PInt cb # rb) = Inr r) \<and>
           (\<exists>r. tuple_cmp Ge (PInt ca # ra) (PInt cb # rb) = Inr r) \<and>
           (tuple_cmp Gt (PInt ca # ra) (PInt cb # rb) = Inr True \<or>
            PInt ca # ra = PInt cb # rb \<or>
            tuple_cmp Gt (PInt cb # rb) (PInt ca # ra) = Inr True)"
proof -
  obtain sa where sa: "evaluate_5 a = Inr sa" "hand_score sa"
    using evaluate_5_hand_score[OF assms(1)] by blast
  obtain sb where sb: "evaluate_5 b = Inr sb" "hand_score sb"
    using evaluate_5_hand_score[OF assms(2)] by blast
  from sa(2) obtain ca ra where a: "sa = PInt ca # ra" "1 \<le> ca" "ca \<le> 9"
    "list_all2 has_shape ra (category_shape ca)" by (rule hand_scoreE)
  from sb(2) obtain cb rb where b: "sb = PInt cb # rb" "1 \<le> cb" "cb \<le> 9"
    "list_all2 has_shape rb (category_shape cb)" by (rule hand_scoreE)
  have same: "length ra = length rb \<and> list_all2 same_type ra rb" if "ca = cb"
    using hand_score_same_type[OF sa(2) sb(2)] that by (simp add: a b category_def)
  have gt: "\<exists>r. tuple_cmp Gt sa sb = Inr r"
    using tuple_cmp_hand_score[OF sa(2) sb(2), of Gt] by simp
  have ge: "\<exists>r. tuple_cmp Ge sa sb = Inr r"
    using tuple_cmp_hand_score[OF sa(2) sb(2), of Ge] by simp
  have tri: "tuple_cmp Gt sa sb = Inr True \<or> sa = sb \<or> tuple_cmp Gt sb sa = Inr True"
    using hand_score_trichotomy[OF sa(2) sb(2)] .
  show ?thesis
    using sa(1) sb(1) a(2-4) b(2-4) same gt ge tri unfolding a(1) b(1) by blast
qed

text \<open>
  Three sevens with two kickers, three nines with two kickers: both scores are an
  integer followed by a list of two ranks.
\<close>

theorem evaluate_5_score_shape_witness:
  "length [new_Card 7 Spades, new_Card 7 Hearts, new_Card 7 Diamonds,
           new_Card 13 Clubs, new_Card 2 Spades] = 5 \<and>
   length [new_Card 9 Spades, new_Card 9 Hearts, new_Card 9 Diamonds,
           new_Card 4 Clubs, new_Card 11 Spades] = 5 \<and>
   evaluate_5 [new_Card 7 Spades, new_Card 7 Hearts, new_Card 7 Diamonds,
               new_Card 13 Clubs, new_Card 2 Spades] = Inr [PInt 4, PInt 7, PList [13, 2]] \<and>
   evaluate_5 [new_Card 9 Spades, new_Card 9 Hearts, new_Card 9 Diamonds,
               new_Card 4 Clubs, new_Card 11 Spades] = Inr [PInt 4, PInt 9, PList [11, 4]] \<and>
   list_all2 has_shape [PInt 7, PList [13, 2]] (category_shape 4) \<and>
   list_all2 same_type [PInt 7, PList [13, 2]] [PInt 9, PList [11, 4]]"
proof -
  let ?a = "[new_Card 7 Spades, new_Card 7 Hearts, new_Card 7 Diamonds,
             new_Card 13 Clubs, new_Card 2 Spades]"
  let ?b = "[new_Card 9 Spades, new_Card 9 Hearts, new_Card 9 Diamonds,
             new_Card 4 Clubs, new_Card 11 Spades]"
  have h1: "length ?a = 5" by simp
  have h2: "length ?b = 5" by simp
  have e1: "evaluate_5 ?a = Inr [PInt 4, PInt 7, PList [13, 2]]" by code_simp
  have e2: "evaluate_5 ?b = Inr [PInt 4, PInt 9, PList [11, 4]]" by code_simp
  from evaluate_5_score_shape[OF h1 h2]
  obtain ca ra cb rb where r:
    "evaluate_5 ?a = Inr (PInt ca # ra)" "evaluate_5 ?b = Inr (PInt cb # rb)"
    "list_all2 has_shape ra (category_shape ca)"
    "ca = cb \<longrightarrow> length ra = length rb \<and> list_all2 same_type ra rb"
    by blast
  have "ca = 4" "ra = [PInt 7, PList [13, 2]]" "cb = 4" "rb = [PInt 9, PList [11, 4]]"
    using r(1,2) by (simp_all add: e1 e2)
  then show ?thesis using r(3,4) h1 h2 e1 e2 by simp
qed

end
